theory Spec2Isabelle
  imports Complex_Main "HOL-Library.Word" "HOL-Library.Multiset"
begin

section \<open>Adaptive fitting with hierarchical splines: gsHFitting\<close>

text \<open>
  A shallow embedding of \<^verbatim>\<open>gsHFitting<d,T>\<close> (file gsHSplines/gsHFitting.h).
  The coefficient type \<^verbatim>\<open>T\<close> is read as the real numbers, \<^verbatim>\<open>unsigned\<close> as a 32-bit
  word and \<^verbatim>\<open>int\<close> levels as integers. A read outside a vector and a shift by 32 bits
  or more have no defined behaviour in C++; both are results of their own here.
\<close>

type_synonym u32 = "32 word"

datatype error = OutOfRange | UndefinedShift

text \<open>\<^verbatim>\<open>v[i]\<close> on a vector: defined only below its size.\<close>

definition read_at :: "'a list \<Rightarrow> nat \<Rightarrow> error + 'a" where
  "read_at xs i = (if i < length xs then Inr (xs ! i) else Inl OutOfRange)"

text \<open>A counted \<^verbatim>\<open>for\<close> loop whose body may fail: the body is run on each index in turn.\<close>

fun for_each :: "('a \<Rightarrow> 's \<Rightarrow> error + 's) \<Rightarrow> 'a list \<Rightarrow> 's \<Rightarrow> error + 's" where
  "for_each body [] s = Inr s"
| "for_each body (x # xs) s =
     (case body x s of Inl e \<Rightarrow> Inl e | Inr s' \<Rightarrow> for_each body xs s')"

subsection \<open>The fitting object and its collaborators\<close>

text \<open>
  The calls the object makes, in order. The list is a ghost field: it records which of
  the operations a run performed.
\<close>

datatype call =
    Compute real
  | ComputeErrors
  | SetRefineThreshold
  | GetBoxes real
  | RefineElements "u32 list"

text \<open>
  The members of \<^verbatim>\<open>gsHFitting\<close> and of its base \<^verbatim>\<open>gsFitting\<close> that the code reads or
  writes. \<open>dim_d\<close> is the template parameter \<^verbatim>\<open>d\<close>; \<open>m_param_values\<close> holds one column
  (a parameter point) per sample.
\<close>

record ('b, 'r) gsHFitting =
  dim_d :: nat
  m_ref :: real
  m_lambda :: real
  m_ext :: "u32 list"
  m_param_values :: "real list list"
  m_basis :: 'b
  m_result :: 'r
  m_pointErrors :: "real list"
  m_max_error :: real
  m_min_error :: real
  calls :: "call list"

text \<open>
  The code outside this file, taken as parameters: the hierarchical basis
  (\<^verbatim>\<open>maxLevel\<close>, the knot search \<^verbatim>\<open>uFind(..).uIndex()\<close> of a level and direction,
  \<^verbatim>\<open>tree().query3\<close>, \<^verbatim>\<open>numBreaks\<close>, \<^verbatim>\<open>refineElements\<close>), the base class's solver and
  error measurement, the standard library's \<^verbatim>\<open>std::nth_element\<close>, and the rounded
  difference and product of the floating-point type \<^verbatim>\<open>T\<close>.
\<close>

record ('b, 'r) collaborators =
  maxLevel :: "'b \<Rightarrow> int"
  uFind :: "'b \<Rightarrow> int \<Rightarrow> nat \<Rightarrow> real \<Rightarrow> u32"
  query3 :: "'b \<Rightarrow> u32 list \<Rightarrow> u32 list \<Rightarrow> int \<Rightarrow> int"
  numBreaks :: "'b \<Rightarrow> int \<Rightarrow> nat \<Rightarrow> int"
  refineElements :: "'b \<Rightarrow> u32 list \<Rightarrow> 'b"
  solve :: "'b \<Rightarrow> real list list \<Rightarrow> real \<Rightarrow> 'r"
  measure_errors :: "'r \<Rightarrow> real list list \<Rightarrow> real list \<times> real \<times> real"
  nth_element :: "real list \<Rightarrow> nat \<Rightarrow> real list"
  rounded_sub :: "real \<Rightarrow> real \<Rightarrow> real"
  rounded_mul :: "real \<Rightarrow> real \<Rightarrow> real"

text \<open>
  The value of a tolerance argument: a finite number or the IEEE value +infinity, with
  the two comparisons the code makes against it.
\<close>

datatype tolerance = Finite real | PlusInfinity

fun exceeds :: "real \<Rightarrow> tolerance \<Rightarrow> bool" where
  "exceeds x (Finite t) = (t < x)"
| "exceeds x PlusInfinity = False"


subsection \<open>append and isCellAlreadyInserted\<close>

text \<open>\<^verbatim>\<open>append\<close>: pushes the entries of \<open>box\<close> one by one.\<close>

definition append_v :: "u32 list \<Rightarrow> u32 list \<Rightarrow> u32 list" where
  "append_v boxes box = foldl (\<lambda>bs col. bs @ [box ! col]) boxes [0..<length box]"

text \<open>The inner loop of \<^verbatim>\<open>isCellAlreadyInserted\<close>: the entries of the cell stored at \<open>i\<close>
  that agree with \<open>a_cell\<close>.\<close>

definition commonEntries :: "nat \<Rightarrow> u32 list \<Rightarrow> u32 list \<Rightarrow> nat" where
  "commonEntries i a_cell cells =
     length (filter (\<lambda>col. cells ! (i + col) = a_cell ! col) [0..<length a_cell])"

text \<open>
  The outer loop, from index \<open>i\<close> in steps of \<^verbatim>\<open>a_cell.rows()\<close> until \<open>i\<close> is the size of
  \<open>cells\<close>. A stored cell that runs over the end of \<open>cells\<close> is read out of range.
\<close>

function isCellAlreadyInserted_from :: "nat \<Rightarrow> u32 list \<Rightarrow> u32 list \<Rightarrow> error + bool" where
  "isCellAlreadyInserted_from i a_cell cells =
     (if i = length cells then Inr False
      else if length cells < i + length a_cell then Inl OutOfRange
      else if commonEntries i a_cell cells = length a_cell then Inr True
      else isCellAlreadyInserted_from (i + length a_cell) a_cell cells)"
  by pat_completeness auto
termination
proof (relation "measure (\<lambda>(i, a_cell, cells). length cells - i)")
  show "wf (measure (\<lambda>(i, a_cell, cells). length cells - i))" by simp
next
  fix i :: nat and a_cell cells :: "u32 list"
  assume ne: "i \<noteq> length cells" and le: "\<not> length cells < i + length a_cell"
    and ce: "commonEntries i a_cell cells \<noteq> length a_cell"
  have "length a_cell \<noteq> 0"
  proof
    assume "length a_cell = 0"
    then have "commonEntries i a_cell cells = length a_cell"
      by (simp add: commonEntries_def)
    with ce show False by simp
  qed
  then have "0 < length a_cell" by simp
  with ne le have "length cells - (i + length a_cell) < length cells - i" by arith
  then show "((i + length a_cell, a_cell, cells), (i, a_cell, cells))
      \<in> measure (\<lambda>(i, a_cell, cells). length cells - i)"
    by simp
qed

declare isCellAlreadyInserted_from.simps [simp del]

definition isCellAlreadyInserted :: "u32 list \<Rightarrow> u32 list \<Rightarrow> error + bool" where
  "isCellAlreadyInserted a_cell cells = isCellAlreadyInserted_from 0 a_cell cells"

subsection \<open>appendBox\<close>

text \<open>The cell of the finest level that holds \<open>parameter\<close>: one knot search per
  direction, written into \<open>a_cell\<close>.\<close>

definition locate :: "('b, 'r) collaborators \<Rightarrow> ('b, 'r) gsHFitting \<Rightarrow> real list
    \<Rightarrow> error + u32 list" where
  "locate X s parameter =
     (let maxLvl = maxLevel X (m_basis s) in
      for_each
        (\<lambda>dm a_cell. case read_at parameter dm of
             Inl e \<Rightarrow> Inl e
           | Inr x \<Rightarrow> Inr (a_cell[dm := uFind X (m_basis s) maxLvl dm x]))
        [0..<dim_d s] (replicate (dim_d s) 0))"

text \<open>Lines 306 to 316: the index of the cell on level \<open>cell_lvl\<close>. The shift amount is
  an \<^verbatim>\<open>unsigned\<close>.\<close>

definition lowIndex :: "int \<Rightarrow> int \<Rightarrow> u32 \<Rightarrow> error + u32" where
  "lowIndex maxLvl cell_lvl c =
     (if cell_lvl < maxLvl
      then (let shift = (word_of_int (maxLvl - cell_lvl) :: u32) in
            if unat shift < 32 then Inr (drop_bit (unat shift) c) else Inl UndefinedShift)
      else (let shift = (word_of_int (cell_lvl - maxLvl) :: u32) in
            if unat shift < 32 then Inr (push_bit (unat shift) c) else Inl UndefinedShift))"

text \<open>Lines 319 to 321: the extension applied to both sides, cut at 0 and at
  \<open>numBreaks\<close>.\<close>

definition low_of :: "u32 \<Rightarrow> u32 \<Rightarrow> u32" where
  "low_of idx ext = (if ext < idx then idx - ext else 0)"

definition upp_of :: "u32 \<Rightarrow> u32 \<Rightarrow> u32 \<Rightarrow> u32" where
  "upp_of idx ext nb = (if idx + ext + 1 < nb then idx + ext + 1 else nb)"

text \<open>The body of the loop over the directions (lines 302 to 325).\<close>

definition box_step :: "('b, 'r) collaborators \<Rightarrow> ('b, 'r) gsHFitting \<Rightarrow> int \<Rightarrow> int
    \<Rightarrow> u32 list \<Rightarrow> nat \<Rightarrow> u32 list \<Rightarrow> error + u32 list" where
  "box_step X s maxLvl cell_lvl a_cell dm box =
     (let nb = (word_of_int (numBreaks X (m_basis s) cell_lvl dm - 1) :: u32) in
      case lowIndex maxLvl cell_lvl (a_cell ! dm) of
        Inl e \<Rightarrow> Inl e
      | Inr idx \<Rightarrow>
          (case read_at (m_ext s) dm of
             Inl e \<Rightarrow> Inl e
           | Inr ext \<Rightarrow>
               Inr (box[1 + dm := low_of idx ext,
                        1 + dim_d s + dm := upp_of idx ext nb])))"

definition appendBox :: "('b, 'r) collaborators \<Rightarrow> ('b, 'r) gsHFitting
    \<Rightarrow> u32 list \<times> u32 list \<Rightarrow> real list \<Rightarrow> error + (u32 list \<times> u32 list)" where
  "appendBox X s bc parameter =
     (let boxes = fst bc; cells = snd bc; maxLvl = maxLevel X (m_basis s) in
      case locate X s parameter of
        Inl e \<Rightarrow> Inl e
      | Inr a_cell \<Rightarrow>
          (case isCellAlreadyInserted a_cell cells of
             Inl e \<Rightarrow> Inl e
           | Inr True \<Rightarrow> Inr (boxes, cells)
           | Inr False \<Rightarrow>
               (let cells' = append_v cells a_cell;
                    a_cell_upp = map (\<lambda>c. c + 1) a_cell;
                    cell_lvl = query3 X (m_basis s) a_cell a_cell_upp maxLvl + 1;
                    box0 = (replicate (2 * dim_d s + 1) 0)[0 := word_of_int cell_lvl]
                in case for_each (box_step X s maxLvl cell_lvl a_cell) [0..<dim_d s] box0 of
                     Inl e \<Rightarrow> Inl e
                   | Inr box \<Rightarrow> Inr (append_v boxes box, cells'))))"

subsection \<open>getBoxes\<close>

definition getBoxes :: "('b, 'r) collaborators \<Rightarrow> ('b, 'r) gsHFitting \<Rightarrow> real list \<Rightarrow> real
    \<Rightarrow> error + u32 list" where
  "getBoxes X s errors threshold =
     (case for_each
        (\<lambda>index bc.
           if threshold \<le> errors ! index
           then (case read_at (m_param_values s) index of
                   Inl e \<Rightarrow> Inl e
                 | Inr parameter \<Rightarrow> appendBox X s bc parameter)
           else Inr bc)
        [0..<length errors] ([], [])
      of Inl e \<Rightarrow> Inl e | Inr bc \<Rightarrow> Inr (fst bc))"

subsection \<open>setRefineThreshold\<close>

text \<open>
  Modelled from the spec: \<^verbatim>\<open>cast<T,std::size_t>\<close> is declared outside this file; the
  specification gives the rank as the floor of \<open>N * (1 - p)\<close>.
\<close>

definition cast_size_t :: "real \<Rightarrow> nat" where
  "cast_size_t x = nat \<lfloor>x\<rfloor>"

text \<open>
  What the C++ standard promises of \<^verbatim>\<open>std::nth_element(first, nth, last)\<close>: the range is
  rearranged, the element at position \<open>n\<close> is the one a full sort would put there, and
  nothing before position \<open>n\<close> is greater than anything from \<open>n\<close> on.
\<close>

definition nth_element_contract :: "(real list \<Rightarrow> nat \<Rightarrow> real list) \<Rightarrow> bool" where
  "nth_element_contract sel =
     (\<forall>xs n. mset (sel xs n) = mset xs \<and>
        (n < length xs \<longrightarrow> sel xs n ! n = sort xs ! n) \<and>
        (\<forall>i j. i < n \<and> n \<le> j \<and> j < length xs \<longrightarrow> sel xs n ! i \<le> sel xs n ! j))"

text \<open>
  The arithmetic of \<^verbatim>\<open>T\<close> is floating point: a difference and a product are rounded to a
  value of \<^verbatim>\<open>T\<close>, and what the rounding yields is a parameter. Two results are exact in
  IEEE arithmetic whatever the format and are fixed here: \<open>x - 0 = x\<close> and \<open>x * 1 = x\<close>.
  The size of a vector is taken to convert to \<^verbatim>\<open>T\<close> without rounding, as every size below
  \<open>2 ^ 53\<close> does for \<^verbatim>\<open>double\<close>.
\<close>

definition sub_T :: "('b, 'r) collaborators \<Rightarrow> real \<Rightarrow> real \<Rightarrow> real" where
  "sub_T X a b = (if b = 0 then a else rounded_sub X a b)"

definition mul_T :: "('b, 'r) collaborators \<Rightarrow> real \<Rightarrow> real \<Rightarrow> real" where
  "mul_T X a b = (if b = 1 then a else rounded_mul X a b)"

text \<open>Line 361: \<^verbatim>\<open>cast<T,std::size_t>(errorsCopy.size() * (1.0 - m_ref))\<close> on a vector of
  size \<open>n\<close>.\<close>

definition refine_rank :: "('b, 'r) collaborators \<Rightarrow> ('b, 'r) gsHFitting \<Rightarrow> nat \<Rightarrow> nat" where
  "refine_rank X s n = cast_size_t (mul_T X (real n) (sub_T X 1.0 (m_ref s)))"

text \<open>\<^verbatim>\<open>*pos\<close> with \<^verbatim>\<open>pos = errorsCopy.begin() + i\<close> is a read at index \<open>i\<close>.\<close>

definition setRefineThreshold :: "('b, 'r) collaborators \<Rightarrow> ('b, 'r) gsHFitting \<Rightarrow> real list
    \<Rightarrow> error + real" where
  "setRefineThreshold X s errors =
     (let errorsCopy = errors;
          i = refine_rank X s (length errorsCopy);
          errorsCopy' = nth_element X errorsCopy i
      in if i < length errorsCopy then Inr (errorsCopy' ! i) else Inl OutOfRange)"

subsection \<open>nextIteration and iterativeRefine\<close>

definition record_call :: "call \<Rightarrow> ('b, 'r) gsHFitting \<Rightarrow> ('b, 'r) gsHFitting" where
  "record_call c s = s\<lparr>calls := calls s @ [c]\<rparr>"

text \<open>
  Modelled from the spec: \<^verbatim>\<open>gsFitting::compute\<close> and \<^verbatim>\<open>gsFitting::computeErrors\<close> are
  members of the base class, outside this file. The first recomputes the approximation
  from the parameter values and the current basis, the second the error of every sample
  and the largest and smallest of them from the latest approximation.
\<close>

definition compute :: "('b, 'r) collaborators \<Rightarrow> real \<Rightarrow> ('b, 'r) gsHFitting
    \<Rightarrow> ('b, 'r) gsHFitting" where
  "compute X lambda s =
     record_call (Compute lambda)
       (s\<lparr>m_result := solve X (m_basis s) (m_param_values s) lambda\<rparr>)"

definition computeErrors :: "('b, 'r) collaborators \<Rightarrow> ('b, 'r) gsHFitting
    \<Rightarrow> ('b, 'r) gsHFitting" where
  "computeErrors X s =
     (case measure_errors X (m_result s) (m_param_values s) of
        (errs, mx, mn) \<Rightarrow>
          record_call ComputeErrors
            (s\<lparr>m_pointErrors := errs, m_max_error := mx, m_min_error := mn\<rparr>))"

text \<open>Line 196: the threshold given, or the one of the refinement percentage.\<close>

definition select_threshold :: "('b, 'r) collaborators \<Rightarrow> real \<Rightarrow> ('b, 'r) gsHFitting
    \<Rightarrow> error + (real \<times> ('b, 'r) gsHFitting)" where
  "select_threshold X err_threshold s =
     (if 0 \<le> err_threshold then Inr (err_threshold, s)
      else (case setRefineThreshold X s (m_pointErrors s) of
              Inl e \<Rightarrow> Inl e
            | Inr t \<Rightarrow> Inr (t, record_call SetRefineThreshold s)))"

definition nextIteration :: "('b, 'r) collaborators \<Rightarrow> tolerance \<Rightarrow> real
    \<Rightarrow> ('b, 'r) gsHFitting \<Rightarrow> error + (bool \<times> ('b, 'r) gsHFitting)" where
  "nextIteration X tolerance err_threshold s =
     (if length (m_pointErrors s) \<noteq> 0
      then
        (if exceeds (m_max_error s) tolerance
         then
           (case select_threshold X err_threshold s of
              Inl e \<Rightarrow> Inl e
            | Inr (threshold, s1) \<Rightarrow>
                (case getBoxes X s1 (m_pointErrors s1) threshold of
                   Inl e \<Rightarrow> Inl e
                 | Inr boxes \<Rightarrow>
                     (let s2 = record_call (GetBoxes threshold) s1 in
                      if length boxes = 0 then Inr (False, s2)
                      else
                        (let s3 = record_call (RefineElements boxes)
                               (s2\<lparr>m_basis := refineElements X (m_basis s2) boxes\<rparr>)
                         in Inr (True, computeErrors X (compute X (m_lambda s3) s3))))))
         else Inr (False, s))
      else Inr (True, computeErrors X (compute X (m_lambda s) s)))"



subsection \<open>What a run of getBoxes amounts to\<close>

text \<open>The cell of a parameter point, and the level, index, bound and box of a cell, as
  functions: the values the loops below are shown to compute.\<close>

definition cell_of :: "('b, 'r) collaborators \<Rightarrow> ('b, 'r) gsHFitting \<Rightarrow> real list \<Rightarrow> u32 list" where
  "cell_of X s p =
     map (\<lambda>dm. uFind X (m_basis s) (maxLevel X (m_basis s)) dm (p ! dm)) [0..<dim_d s]"

definition level_of :: "('b, 'r) collaborators \<Rightarrow> ('b, 'r) gsHFitting \<Rightarrow> u32 list \<Rightarrow> int" where
  "level_of X s c =
     query3 X (m_basis s) c (map (\<lambda>x. x + 1) c) (maxLevel X (m_basis s)) + 1"

definition index_at :: "('b, 'r) collaborators \<Rightarrow> ('b, 'r) gsHFitting \<Rightarrow> u32 list \<Rightarrow> nat \<Rightarrow> u32" where
  "index_at X s c dm =
     (let L = level_of X s c; M = maxLevel X (m_basis s) in
      if L < M then drop_bit (nat (M - L)) (c ! dm) else push_bit (nat (L - M)) (c ! dm))"

definition breaks_at :: "('b, 'r) collaborators \<Rightarrow> ('b, 'r) gsHFitting \<Rightarrow> u32 list \<Rightarrow> nat \<Rightarrow> u32" where
  "breaks_at X s c dm = word_of_int (numBreaks X (m_basis s) (level_of X s c) dm - 1)"

definition box_low :: "('b, 'r) collaborators \<Rightarrow> ('b, 'r) gsHFitting \<Rightarrow> u32 list \<Rightarrow> nat \<Rightarrow> u32" where
  "box_low X s c dm = low_of (index_at X s c dm) (m_ext s ! dm)"

definition box_upp :: "('b, 'r) collaborators \<Rightarrow> ('b, 'r) gsHFitting \<Rightarrow> u32 list \<Rightarrow> nat \<Rightarrow> u32" where
  "box_upp X s c dm = upp_of (index_at X s c dm) (m_ext s ! dm) (breaks_at X s c dm)"

definition box_of :: "('b, 'r) collaborators \<Rightarrow> ('b, 'r) gsHFitting \<Rightarrow> u32 list \<Rightarrow> u32 list" where
  "box_of X s c =
     word_of_int (level_of X s c)
       # map (box_low X s c) [0..<dim_d s] @ map (box_upp X s c) [0..<dim_d s]"

text \<open>The samples at or above the threshold, in sample order.\<close>

definition flagged :: "('b, 'r) gsHFitting \<Rightarrow> real list \<Rightarrow> real \<Rightarrow> real list list" where
  "flagged s errors threshold =
     map (\<lambda>index. m_param_values s ! index)
       (filter (\<lambda>index. threshold \<le> errors ! index) [0..<length errors])"

text \<open>The first occurrence of every element, in order.\<close>

definition note_cell :: "'a list \<Rightarrow> 'a \<Rightarrow> 'a list" where
  "note_cell seen c = (if c \<in> set seen then seen else seen @ [c])"

definition first_seen :: "'a list \<Rightarrow> 'a list" where
  "first_seen cs = foldl note_cell [] cs"

definition emitted_cells :: "('b, 'r) collaborators \<Rightarrow> ('b, 'r) gsHFitting \<Rightarrow> real list \<Rightarrow> real
    \<Rightarrow> u32 list list" where
  "emitted_cells X s errors threshold = first_seen (map (cell_of X s) (flagged s errors threshold))"

text \<open>
  The inputs on which every read and shift of \<^verbatim>\<open>appendBox\<close> is defined: the extension
  and every parameter point have \<open>d\<close> entries, \<open>d\<close> is positive, and no level the tree
  reports is 32 or more levels away from the finest one.
\<close>

definition shift_defined :: "('b, 'r) collaborators \<Rightarrow> ('b, 'r) gsHFitting \<Rightarrow> bool" where
  "shift_defined X s =
     (\<forall>c. \<bar>maxLevel X (m_basis s) - level_of X s c\<bar> < 32)"

definition well_formed :: "('b, 'r) collaborators \<Rightarrow> ('b, 'r) gsHFitting \<Rightarrow> bool" where
  "well_formed X s =
     (0 < dim_d s \<and> length (m_ext s) = dim_d s \<and>
      list_all (\<lambda>p. length p = dim_d s) (m_param_values s) \<and> shift_defined X s)"

subsection \<open>A small instance\<close>

text \<open>
  A two-dimensional instance to run the definitions on. The finest level is 2, with four
  cells in each direction of the unit square; every cell is reported on level 0, a level
  \<open>l\<close> has \<open>2 ^ l + 1\<close> breaks, and \<^verbatim>\<open>std::nth_element\<close> sorts the whole range. The basis
  counts the refinements it has received and the approximation remembers the basis it was
  computed on; the measured errors are smaller on a refined basis, and there is one
  error per sample, so none without samples. The differences and products that occur
  (\<open>1 - 1 / 2\<close> and \<open>4 * (1 / 2)\<close>) are exact in \<^verbatim>\<open>double\<close>.
\<close>

definition toy :: "(nat, nat) collaborators" where
  "toy = \<lparr>maxLevel = (\<lambda>b. 2),
          uFind = (\<lambda>b lvl dm x. if x < 1 / 4 then 0 else if x < 1 / 2 then 1
                                  else if x < 3 / 4 then 2 else 3),
          query3 = (\<lambda>b low upp lvl. 0),
          numBreaks = (\<lambda>b lvl dm. 2 ^ nat lvl + 1),
          refineElements = (\<lambda>b boxes. Suc b),
          solve = (\<lambda>b params lambda. b),
          measure_errors =
            (\<lambda>r params. if params = [] then ([], 0, 0)
               else if r = 0 then ([1 / 2, 9 / 10, 7 / 10, 1 / 20], 9 / 10, 1 / 20)
               else ([1 / 4, 1 / 20, 1 / 20, 1 / 20], 1 / 4, 1 / 20)),
          nth_element = (\<lambda>xs n. sort xs),
          rounded_sub = (\<lambda>a b. a - b),
          rounded_mul = (\<lambda>a b. a * b)\<rparr>"

text \<open>The object before its first fit, and after it.\<close>

definition fresh :: "(nat, nat) gsHFitting" where
  "fresh = \<lparr>dim_d = 2, m_ref = 1 / 2, m_lambda = 0, m_ext = [0, 0],
            m_param_values = [[1 / 10, 1 / 10], [1 / 5, 1 / 10], [3 / 10, 1 / 10], [9 / 10, 9 / 10]],
            m_basis = 0, m_result = 0, m_pointErrors = [], m_max_error = 0, m_min_error = 0,
            calls = []\<rparr>"

definition fitted :: "(nat, nat) gsHFitting" where
  "fitted = fresh\<lparr>m_pointErrors := [1 / 2, 9 / 10, 7 / 10, 1 / 20],
                   m_max_error := 9 / 10, m_min_error := 1 / 20\<rparr>"

text \<open>The fitted object with the largest extension an \<^verbatim>\<open>unsigned\<close> can hold in the first
  direction.\<close>

definition wide :: "(nat, nat) gsHFitting" where
  "wide = fitted\<lparr>m_ext := [4294967295, 0]\<rparr>"



section \<open>Properties\<close>

subsection \<open>The loops compute the functions above\<close>

lemma append_v_take:
  "n \<le> length box \<Longrightarrow> foldl (\<lambda>bs col. bs @ [box ! col]) boxes [0..<n] = boxes @ take n box"
  by (induction n) (simp_all add: take_Suc_conv_app_nth)

lemma append_v_eq: "append_v boxes box = boxes @ box"
  by (simp add: append_v_def append_v_take)

lemma for_each_pure:
  "(\<And>x t. x \<in> set xs \<Longrightarrow> f x t = Inr (g x t)) \<Longrightarrow> for_each f xs s = Inr (fold g xs s)"
  by (induction xs arbitrary: s) auto

lemma fold_update_upt:
  "k \<le> length xs \<Longrightarrow> fold (\<lambda>i ys. ys[i := v i]) [0..<k] xs = map v [0..<k] @ drop k xs"
proof (induction k)
  case 0
  then show ?case by simp
next
  case (Suc k)
  then have "k < length xs" by simp
  then have "(map v [0..<k] @ drop k xs)[k := v k] = map v [0..<k] @ v k # drop (Suc k) xs"
    by (simp add: list_update_append Cons_nth_drop_Suc [symmetric])
  with Suc show ?case by simp
qed

lemma locate_cell_of:
  assumes "length p = dim_d s"
  shows "locate X s p = Inr (cell_of X s p)"
proof -
  let ?v = "\<lambda>dm. uFind X (m_basis s) (maxLevel X (m_basis s)) dm (p ! dm)"
  have "for_each
        (\<lambda>dm a_cell. case read_at p dm of
             Inl e \<Rightarrow> Inl e
           | Inr x \<Rightarrow> Inr (a_cell[dm := uFind X (m_basis s) (maxLevel X (m_basis s)) dm x]))
        [0..<dim_d s] (replicate (dim_d s) 0)
      = Inr (fold (\<lambda>i ys. ys[i := ?v i]) [0..<dim_d s] (replicate (dim_d s) 0))"
    by (rule for_each_pure) (simp add: read_at_def assms)
  then show ?thesis
    by (simp add: locate_def cell_of_def fold_update_upt)
qed

lemma length_filter_all:
  "length (filter P xs) = length xs \<longleftrightarrow> (\<forall>x \<in> set xs. P x)"
proof (induction xs)
  case Nil
  then show ?case by simp
next
  case (Cons x xs)
  have "length (filter P xs) \<le> length xs" by simp
  then have "length (filter P xs) \<noteq> Suc (length xs)" by arith
  with Cons show ?case by simp
qed

lemma commonEntries_full:
  assumes "i + length a \<le> length cells"
  shows "commonEntries i a cells = length a \<longleftrightarrow> take (length a) (drop i cells) = a"
proof -
  have "commonEntries i a cells = length a
      \<longleftrightarrow> (\<forall>col < length a. cells ! (i + col) = a ! col)"
  proof -
    have "length (filter (\<lambda>col. cells ! (i + col) = a ! col) [0..<length a]) = length [0..<length a]
      \<longleftrightarrow> (\<forall>col \<in> set [0..<length a]. cells ! (i + col) = a ! col)"
      by (rule length_filter_all)
    then show ?thesis by (auto simp: commonEntries_def)
  qed
  also have "\<dots> \<longleftrightarrow> take (length a) (drop i cells) = a"
    using assms by (auto simp: list_eq_iff_nth_eq)
  finally show ?thesis .
qed

lemma isCellAlreadyInserted_from_concat:
  assumes "0 < length a" and "\<forall>c \<in> set cs. length c = length a"
  shows "isCellAlreadyInserted_from (length pre) a (pre @ concat cs) = Inr (a \<in> set cs)"
  using assms(2)
proof (induction cs arbitrary: pre)
  case Nil
  then show ?case by (subst isCellAlreadyInserted_from.simps) simp
next
  case (Cons c cs)
  define xs where "xs = pre @ concat (c # cs)"
  define i where "i = length pre"
  from Cons.prems have lc: "length c = length a" by simp
  have fit: "i + length a \<le> length xs"
    using lc by (simp add: xs_def i_def)
  have ne: "i \<noteq> length xs"
    using lc assms(1) by (simp add: xs_def i_def)
  have tk: "take (length a) (drop i xs) = c"
    using lc by (simp add: xs_def i_def)
  have ce: "commonEntries i a xs = length a \<longleftrightarrow> c = a"
    using commonEntries_full [OF fit] tk by simp
  have unfold: "isCellAlreadyInserted_from i a xs =
      (if commonEntries i a xs = length a then Inr True
       else isCellAlreadyInserted_from (i + length a) a xs)"
    using ne fit by (subst isCellAlreadyInserted_from.simps) simp
  have "\<forall>c \<in> set cs. length c = length a"
    using Cons.prems by simp
  then have "isCellAlreadyInserted_from (length (pre @ c)) a ((pre @ c) @ concat cs)
      = Inr (a \<in> set cs)"
    by (rule Cons.IH)
  then have rec: "isCellAlreadyInserted_from (i + length a) a xs = Inr (a \<in> set cs)"
    by (simp add: lc xs_def i_def)
  have "isCellAlreadyInserted_from i a xs = Inr (a \<in> set (c # cs))"
    unfolding unfold rec using ce by auto
  then show ?case by (simp add: xs_def i_def)
qed

lemma isCellAlreadyInserted_concat:
  assumes "0 < length a" and "\<forall>c \<in> set cs. length c = length a"
  shows "isCellAlreadyInserted a (concat cs) = Inr (a \<in> set cs)"
  using isCellAlreadyInserted_from_concat [OF assms, of "[]"]
  by (simp add: isCellAlreadyInserted_def)

lemma unat_small_shift:
  assumes "0 \<le> k" and "k < 32"
  shows "unat (word_of_int k :: u32) = nat k"
proof -
  have "k < 2 ^ 32" using assms(2) by simp
  then have "k mod 2 ^ 32 = k" using assms(1) by simp
  then show ?thesis
    by (simp add: unat_eq_nat_uint uint_word_of_int take_bit_eq_mod)
qed

lemma lowIndex_defined:
  assumes "\<bar>M - L\<bar> < 32"
  shows "lowIndex M L x =
    Inr (if L < M then drop_bit (nat (M - L)) x else push_bit (nat (L - M)) x)"
proof (cases "L < M")
  case True
  with assms have "unat (word_of_int (M - L) :: u32) = nat (M - L)"
    by (intro unat_small_shift) simp_all
  moreover from True assms have "nat (M - L) < 32" by simp
  ultimately show ?thesis using True by (simp add: lowIndex_def)
next
  case False
  with assms have "unat (word_of_int (L - M) :: u32) = nat (L - M)"
    by (intro unat_small_shift) simp_all
  moreover from False assms have "nat (L - M) < 32" by simp
  ultimately show ?thesis using False by (simp add: lowIndex_def)
qed

lemma box_step_defined:
  assumes "shift_defined X s" and "dm < length (m_ext s)"
  shows "box_step X s (maxLevel X (m_basis s)) (level_of X s c) c dm box =
    Inr (box[1 + dm := box_low X s c dm, 1 + dim_d s + dm := box_upp X s c dm])"
proof -
  have "\<bar>maxLevel X (m_basis s) - level_of X s c\<bar> < 32"
    using assms(1) by (simp add: shift_defined_def)
  then have "lowIndex (maxLevel X (m_basis s)) (level_of X s c) (c ! dm) = Inr (index_at X s c dm)"
    by (simp add: lowIndex_defined index_at_def Let_def)
  then show ?thesis
    using assms(2)
    by (simp add: box_step_def read_at_def box_low_def box_upp_def breaks_at_def)
qed

lemma fold_box_length:
  "length (fold (\<lambda>dm box. box[Suc dm := lo dm, Suc (d + dm) := up dm]) ks b) = length b"
  by (induction ks arbitrary: b) simp_all

lemma fold_box_nth:
  assumes "k \<le> d" and "length b = Suc (2 * d)" and "j < Suc (2 * d)"
  shows "fold (\<lambda>dm box. box[Suc dm := lo dm, Suc (d + dm) := up dm]) [0..<k] b ! j =
    (if 1 \<le> j \<and> j < 1 + k then lo (j - 1)
     else if 1 + d \<le> j \<and> j < 1 + d + k then up (j - 1 - d) else b ! j)"
  using assms(1)
proof (induction k)
  case 0
  then show ?case by auto
next
  case (Suc k)
  let ?r = "fold (\<lambda>dm box. box[Suc dm := lo dm, Suc (d + dm) := up dm]) [0..<k] b"
  have len: "length ?r = Suc (2 * d)" by (simp only: fold_box_length assms(2))
  from Suc have IH: "?r ! j =
    (if 1 \<le> j \<and> j < 1 + k then lo (j - 1)
     else if 1 + d \<le> j \<and> j < 1 + d + k then up (j - 1 - d) else b ! j)" by simp
  have "fold (\<lambda>dm box. box[Suc dm := lo dm, Suc (d + dm) := up dm]) [0..<Suc k] b ! j
      = (?r[Suc k := lo k, Suc (d + k) := up k]) ! j" by simp
  also have "\<dots> = (if j = Suc (d + k) then up k else if j = Suc k then lo k else ?r ! j)"
    using len assms(3) Suc.prems by (simp add: nth_list_update)
  also have "\<dots> = (if 1 \<le> j \<and> j < 1 + Suc k then lo (j - 1)
     else if 1 + d \<le> j \<and> j < 1 + d + Suc k then up (j - 1 - d) else b ! j)"
    unfolding IH using Suc.prems by (auto simp: less_Suc_eq)
  finally show ?case .
qed

lemma fold_box_eq:
  assumes "length b = Suc (2 * d)"
  shows "fold (\<lambda>dm box. box[Suc dm := lo dm, Suc (d + dm) := up dm]) [0..<d] b =
    b ! 0 # map lo [0..<d] @ map up [0..<d]"
proof (rule nth_equalityI)
  show "length (fold (\<lambda>dm box. box[Suc dm := lo dm, Suc (d + dm) := up dm]) [0..<d] b) =
    length (b ! 0 # map lo [0..<d] @ map up [0..<d])"
    by (simp add: fold_box_length assms)
next
  fix j
  assume "j < length (fold (\<lambda>dm box. box[Suc dm := lo dm, Suc (d + dm) := up dm]) [0..<d] b)"
  then have j: "j < Suc (2 * d)" by (simp add: fold_box_length assms)
  have nth: "fold (\<lambda>dm box. box[Suc dm := lo dm, Suc (d + dm) := up dm]) [0..<d] b ! j =
    (if 1 \<le> j \<and> j < 1 + d then lo (j - 1)
     else if 1 + d \<le> j \<and> j < 1 + d + d then up (j - 1 - d) else b ! j)"
    using assms j by (intro fold_box_nth) simp_all
  show "fold (\<lambda>dm box. box[Suc dm := lo dm, Suc (d + dm) := up dm]) [0..<d] b ! j =
    (b ! 0 # map lo [0..<d] @ map up [0..<d]) ! j"
  proof (cases j)
    case 0
    then show ?thesis unfolding nth by simp
  next
    case (Suc i)
    show ?thesis
    proof (cases "i < d")
      case True
      then show ?thesis unfolding nth using Suc by (simp add: nth_append)
    next
      case False
      then have "i - d < d" and "i < d + d" using j Suc by simp_all
      then show ?thesis unfolding nth using Suc False by (simp add: nth_append)
    qed
  qed
qed

lemma box_loop_eq:
  assumes "shift_defined X s" and "length (m_ext s) = dim_d s"
  shows "for_each (box_step X s (maxLevel X (m_basis s)) (level_of X s c) c) [0..<dim_d s]
      ((replicate (2 * dim_d s + 1) 0)[0 := word_of_int (level_of X s c)])
    = Inr (box_of X s c)"
proof -
  let ?b0 = "(replicate (2 * dim_d s + 1) 0)[0 := word_of_int (level_of X s c)] :: u32 list"
  have "for_each (box_step X s (maxLevel X (m_basis s)) (level_of X s c) c) [0..<dim_d s] ?b0
      = Inr (fold (\<lambda>dm box. box[Suc dm := box_low X s c dm, Suc (dim_d s + dm) := box_upp X s c dm])
          [0..<dim_d s] ?b0)"
    by (rule for_each_pure) (simp add: box_step_defined assms)
  moreover have "length ?b0 = Suc (2 * dim_d s)" by simp
  moreover have "?b0 ! 0 = word_of_int (level_of X s c)" by simp
  ultimately show ?thesis
    by (simp only: fold_box_eq box_of_def)
qed

lemma length_cell_of: "length (cell_of X s p) = dim_d s"
  by (simp add: cell_of_def)

lemma appendBox_char:
  assumes sd: "shift_defined X s" and le: "length (m_ext s) = dim_d s" and d: "0 < dim_d s"
    and lp: "length p = dim_d s" and lc: "\<forall>c \<in> set cs. length c = dim_d s"
  shows "appendBox X s (boxes, concat cs) p =
    Inr (if cell_of X s p \<in> set cs then (boxes, concat cs)
         else (boxes @ box_of X s (cell_of X s p), concat (cs @ [cell_of X s p])))"
proof -
  let ?c = "cell_of X s p"
  have loc: "locate X s p = Inr ?c" by (rule locate_cell_of [OF lp])
  have ins: "isCellAlreadyInserted ?c (concat cs) = Inr (?c \<in> set cs)"
    by (rule isCellAlreadyInserted_concat) (simp_all add: length_cell_of d lc)
  have lvl: "query3 X (m_basis s) ?c (map (\<lambda>c. c + 1) ?c) (maxLevel X (m_basis s)) + 1
      = level_of X s ?c"
    by (simp add: level_of_def)
  note loop = box_loop_eq [OF sd le, of ?c]
  have "appendBox X s (boxes, concat cs) p =
    (if ?c \<in> set cs then Inr (boxes, concat cs)
     else Inr (boxes @ box_of X s ?c, concat cs @ ?c))"
    by (simp only: appendBox_def Let_def fst_conv snd_conv loc ins lvl loop append_v_eq
        sum.case bool.case_eq_if eq_True)
  then show ?thesis by simp
qed

lemma note_cell_state:
  "(if c \<in> set seen then (concat (map f seen), concat seen)
    else (concat (map f seen) @ f c, concat (seen @ [c])))
   = (concat (map f (note_cell seen c)), concat (note_cell seen c))"
  by (simp add: note_cell_def)

lemma getBoxes_loop:
  assumes wf: "well_formed X s"
    and idx: "\<forall>i \<in> set idxs. i < length (m_param_values s)"
    and seen: "\<forall>c \<in> set seen. length c = dim_d s"
  shows "for_each
      (\<lambda>index bc.
         if threshold \<le> errors ! index
         then (case read_at (m_param_values s) index of
                 Inl e \<Rightarrow> Inl e
               | Inr parameter \<Rightarrow> appendBox X s bc parameter)
         else Inr bc)
      idxs (concat (map (box_of X s) seen), concat seen)
    = Inr (let seen' = foldl note_cell seen
                (map (cell_of X s)
                  (map (\<lambda>index. m_param_values s ! index)
                    (filter (\<lambda>index. threshold \<le> errors ! index) idxs)))
           in (concat (map (box_of X s) seen'), concat seen'))"
  using idx seen
proof (induction idxs arbitrary: seen)
  case Nil
  then show ?case by simp
next
  case (Cons i idxs)
  from Cons.prems have i: "i < length (m_param_values s)"
    and rest: "\<forall>i \<in> set idxs. i < length (m_param_values s)" by simp_all
  show ?case
  proof (cases "threshold \<le> errors ! i")
    case False
    with Cons.IH [OF rest Cons.prems(2)] show ?thesis by simp
  next
    case True
    let ?p = "m_param_values s ! i"
    let ?c = "cell_of X s ?p"
    from wf i have lp: "length ?p = dim_d s"
      by (simp add: well_formed_def list_all_length)
    from wf have "appendBox X s (concat (map (box_of X s) seen), concat seen) ?p =
      Inr (if ?c \<in> set seen then (concat (map (box_of X s) seen), concat seen)
         else (concat (map (box_of X s) seen) @ box_of X s ?c, concat (seen @ [?c])))"
      by (intro appendBox_char lp Cons.prems(2)) (simp_all add: well_formed_def)
    then have step: "appendBox X s (concat (map (box_of X s) seen), concat seen) ?p =
      Inr (concat (map (box_of X s) (note_cell seen ?c)), concat (note_cell seen ?c))"
      by (simp only: note_cell_state)
    have "\<forall>c \<in> set (note_cell seen ?c). length c = dim_d s"
      using Cons.prems(2) by (simp add: note_cell_def length_cell_of)
    from Cons.IH [OF rest this] True i step show ?thesis
      by (simp add: read_at_def)
  qed
qed

lemma getBoxes_char:
  assumes "well_formed X s" and "length errors \<le> length (m_param_values s)"
  shows "getBoxes X s errors threshold =
    Inr (concat (map (box_of X s) (emitted_cells X s errors threshold)))"
proof -
  have "\<forall>i \<in> set [0..<length errors]. i < length (m_param_values s)"
    using assms(2) by simp
  from getBoxes_loop [OF assms(1) this, of "[]" threshold errors]
  show ?thesis
    by (simp add: getBoxes_def emitted_cells_def first_seen_def flagged_def Let_def)
qed

lemma set_foldl_note_cell: "set (foldl note_cell seen cs) = set seen \<union> set cs"
  by (induction cs arbitrary: seen) (auto simp: note_cell_def)

lemma distinct_foldl_note_cell: "distinct seen \<Longrightarrow> distinct (foldl note_cell seen cs)"
  by (induction cs arbitrary: seen) (auto simp: note_cell_def)

lemma set_first_seen: "set (first_seen cs) = set cs"
  by (simp add: first_seen_def set_foldl_note_cell)

lemma distinct_first_seen: "distinct (first_seen cs)"
  by (simp add: first_seen_def distinct_foldl_note_cell)

lemma length_first_seen: "length (first_seen cs) = card (set cs)"
  using distinct_card [OF distinct_first_seen, of cs] by (simp add: set_first_seen)

lemma first_seen_snoc: "first_seen (cs @ [c]) = note_cell (first_seen cs) c"
  by (simp add: first_seen_def)

lemma first_seen_positions:
  "first_seen cs = map (\<lambda>k. cs ! k) (filter (\<lambda>k. cs ! k \<notin> set (take k cs)) [0..<length cs])"
proof (induction cs rule: rev_induct)
  case Nil
  then show ?case by (simp add: first_seen_def)
next
  case (snoc c cs)
  have flt: "filter (\<lambda>k. (cs @ [c]) ! k \<notin> set (take k (cs @ [c]))) [0..<length cs]
      = filter (\<lambda>k. cs ! k \<notin> set (take k cs)) [0..<length cs]"
    by (rule filter_cong) (simp_all add: nth_append)
  have mp: "map (\<lambda>k. (cs @ [c]) ! k) (filter (\<lambda>k. cs ! k \<notin> set (take k cs)) [0..<length cs])
      = map (\<lambda>k. cs ! k) (filter (\<lambda>k. cs ! k \<notin> set (take k cs)) [0..<length cs])"
    by (rule map_cong) (simp_all add: nth_append)
  have split: "[0..<length (cs @ [c])] = [0..<length cs] @ [length cs]" by simp
  have last: "filter (\<lambda>k. (cs @ [c]) ! k \<notin> set (take k (cs @ [c]))) [length cs]
      = (if c \<in> set cs then [] else [length cs])"
    by simp
  have "map (\<lambda>k. (cs @ [c]) ! k)
          (filter (\<lambda>k. (cs @ [c]) ! k \<notin> set (take k (cs @ [c]))) [0..<length (cs @ [c])])
      = first_seen cs @ (if c \<in> set cs then [] else [c])"
    unfolding split filter_append map_append flt mp last snoc.IH [symmetric] by simp
  then show ?case
    by (simp add: first_seen_snoc note_cell_def set_first_seen)
qed

lemma length_box_of: "length (box_of X s c) = 2 * dim_d s + 1"
  by (simp add: box_of_def)

lemma length_concat_boxes:
  "length (concat (map (box_of X s) cs)) = (2 * dim_d s + 1) * length cs"
  by (induction cs) (simp_all add: length_box_of)

lemma uint_low_of: "uint (low_of idx e) = max 0 (uint idx - uint e)"
proof (cases "e < idx")
  case True
  then have "uint e \<le> uint idx" by (simp add: word_less_def)
  then have "uint (idx - e) = uint idx - uint e" by (simp add: uint_sub_lem)
  with True \<open>uint e \<le> uint idx\<close> show ?thesis by (simp add: low_of_def)
next
  case False
  then have "uint idx \<le> uint e" by (simp add: word_less_def)
  with False show ?thesis by (simp add: low_of_def)
qed

lemma uint_sum_no_wrap:
  assumes "uint idx + uint e + 1 < 2 ^ 32"
  shows "uint (idx + e + 1 :: u32) = uint idx + uint e + 1"
proof -
  have "uint (idx + e + 1) = (uint idx + uint e + 1) mod 2 ^ 32"
    by (simp add: uint_word_ariths mod_simps)
  moreover have "0 \<le> uint idx + uint e + 1" by simp
  ultimately show ?thesis using assms by simp
qed

lemma uint_upp_of:
  assumes "uint idx + uint e + 1 < 2 ^ 32"
  shows "uint (upp_of idx e nb) = min (uint nb) (uint idx + uint e + 1)"
proof -
  have "(idx + e + 1 < nb) = (uint idx + uint e + 1 < uint nb)"
    by (simp add: word_less_def uint_sum_no_wrap [OF assms])
  then show ?thesis
    by (simp add: upp_of_def uint_sum_no_wrap [OF assms])
qed

lemma uint_breaks:
  assumes "1 \<le> n" and "n \<le> 2 ^ 32"
  shows "uint (word_of_int (n - 1) :: u32) = n - 1"
proof -
  have "(n - 1) mod 2 ^ 32 = n - 1" using assms by simp
  moreover have "uint (word_of_int (n - 1) :: u32) = (n - 1) mod 2 ^ 32"
    by (simp only: uint_word_of_int_eq take_bit_eq_mod) simp
  ultimately show ?thesis by (simp only:)
qed

lemma uint_upp_of_le: "uint (upp_of idx e nb) \<le> uint nb"
proof (cases "idx + e + 1 < nb")
  case True
  then have "uint (idx + e + 1) < uint nb" by (simp add: word_less_def)
  with True show ?thesis by (simp add: upp_of_def)
next
  case False
  then show ?thesis by (simp add: upp_of_def)
qed

lemma uint_low_le_sum:
  assumes "uint idx < 2 ^ 31"
  shows "uint (low_of idx e) \<le> uint (idx + e + 1 :: u32)"
proof (cases "uint idx + uint e + 1 < 2 ^ 32")
  case True
  have "0 \<le> uint idx" and "0 \<le> uint e" by simp_all
  then have "max 0 (uint idx - uint e) \<le> uint idx + uint e + 1" by linarith
  then show ?thesis by (simp only: uint_low_of uint_sum_no_wrap [OF True])
next
  case False
  with assms have "uint idx \<le> uint e" by simp
  then have "max 0 (uint idx - uint e) = 0" by simp
  moreover have "0 \<le> uint (idx + e + 1)" by simp
  ultimately show ?thesis by (simp only: uint_low_of)
qed

lemma uint_low_le_upp:
  assumes "uint idx < 2 ^ 31" and "uint idx \<le> uint nb"
  shows "uint (low_of idx e) \<le> uint (upp_of idx e nb)"
proof (cases "idx + e + 1 < nb")
  case True
  with uint_low_le_sum [OF assms(1), of e] show ?thesis by (simp add: upp_of_def)
next
  case False
  have "0 \<le> uint e" and "0 \<le> uint nb" by simp_all
  with assms(2) have "max 0 (uint idx - uint e) \<le> uint nb" by linarith
  with False show ?thesis by (simp add: upp_of_def uint_low_of)
qed

subsection \<open>The small instance, evaluated\<close>

lemma toy_fields:
  "maxLevel toy b = 2"
  "uFind toy b lvl dm x = (if x < 1 / 4 then 0 else if x < 1 / 2 then 1 else if x < 3 / 4 then 2 else 3)"
  "query3 toy b low upp lvl = 0"
  "numBreaks toy b lvl dm = 2 ^ nat lvl + 1"
  "refineElements toy b boxes = Suc b"
  "solve toy b params lambda = b"
  "measure_errors toy r params =
     (if params = [] then ([], 0, 0)
      else if r = 0 then ([1 / 2, 9 / 10, 7 / 10, 1 / 20], 9 / 10, 1 / 20)
      else ([1 / 4, 1 / 20, 1 / 20, 1 / 20], 1 / 4, 1 / 20))"
  "nth_element toy xs n = sort xs"
  "rounded_sub toy x y = x - y"
  "rounded_mul toy x y = x * y"
  by (simp_all add: toy_def)

lemma fitted_fields:
  "dim_d fitted = 2" "m_ref fitted = 1 / 2" "m_lambda fitted = 0" "m_ext fitted = [0, 0]"
  "m_param_values fitted = [[1 / 10, 1 / 10], [1 / 5, 1 / 10], [3 / 10, 1 / 10], [9 / 10, 9 / 10]]"
  "m_basis fitted = 0" "m_result fitted = 0"
  "m_pointErrors fitted = [1 / 2, 9 / 10, 7 / 10, 1 / 20]"
  "m_max_error fitted = 9 / 10" "m_min_error fitted = 1 / 20" "calls fitted = []"
  by (simp_all add: fitted_def fresh_def)

lemma well_formed_fitted: "well_formed toy fitted"
  by (simp add: well_formed_def shift_defined_def level_of_def toy_fields fitted_fields)

lemma upt_2: "[0..<2] = [0, 1]"
  by (simp add: upt_rec)

lemma upt_4: "[0..<4] = [0, 1, 2, 3]"
  by (simp add: upt_rec)

lemma flagged_fitted:
  "flagged fitted [1 / 2, 9 / 10, 7 / 10, 1 / 20] (1 / 2)
     = [[1 / 10, 1 / 10], [1 / 5, 1 / 10], [3 / 10, 1 / 10]]"
  by (simp add: flagged_def fitted_fields upt_4)

lemma cells_fitted:
  "cell_of toy fitted [1 / 10, 1 / 10] = [0, 0]"
  "cell_of toy fitted [1 / 5, 1 / 10] = [0, 0]"
  "cell_of toy fitted [3 / 10, 1 / 10] = [1, 0]"
  "cell_of toy fitted [9 / 10, 9 / 10] = [3, 3]"
  by (simp_all add: cell_of_def toy_fields fitted_fields upt_2)

lemma emitted_fitted:
  "emitted_cells toy fitted [1 / 2, 9 / 10, 7 / 10, 1 / 20] (1 / 2) = [[0, 0], [1, 0]]"
  by (simp add: emitted_cells_def flagged_fitted cells_fitted first_seen_def note_cell_def)

lemma box_fitted:
  "box_of toy fitted [0, 0] = [1, 0, 0, 1, 1]"
  "box_of toy fitted [1, 0] = [1, 0, 0, 1, 1]"
  by (simp_all add: box_of_def box_low_def box_upp_def index_at_def level_of_def breaks_at_def
      low_of_def upp_of_def toy_fields fitted_fields upt_2)

subsection \<open>Bounds, the extension, the threshold and the calls\<close>

lemma nth_box_of_level: "box_of X s c ! 0 = word_of_int (level_of X s c)"
  by (simp add: box_of_def)

lemma nth_box_of_low: "i < dim_d s \<Longrightarrow> box_of X s c ! (1 + i) = box_low X s c i"
  by (simp add: box_of_def nth_append)

lemma nth_box_of_upp: "i < dim_d s \<Longrightarrow> box_of X s c ! (1 + dim_d s + i) = box_upp X s c i"
  by (simp add: box_of_def nth_append)

lemma wide_fields:
  "dim_d wide = 2" "m_ext wide = [4294967295, 0]"
  "m_param_values wide = [[1 / 10, 1 / 10], [1 / 5, 1 / 10], [3 / 10, 1 / 10], [9 / 10, 9 / 10]]"
  "m_basis wide = 0"
  by (simp_all add: wide_def fitted_def fresh_def)

lemma well_formed_wide: "well_formed toy wide"
  by (simp add: well_formed_def shift_defined_def level_of_def toy_fields wide_fields)

lemma emitted_wide: "emitted_cells toy wide [1 / 2] (1 / 2) = [[0, 0]]"
  by (simp add: emitted_cells_def flagged_def cell_of_def first_seen_def note_cell_def
      toy_fields wide_fields upt_2)

lemma emitted_fitted_one: "emitted_cells toy fitted [1 / 2] (1 / 2) = [[0, 0]]"
  by (simp add: emitted_cells_def flagged_def cell_of_def first_seen_def note_cell_def
      toy_fields fitted_fields upt_2)

lemma box_wide: "box_of toy wide [0, 0] = [1, 0, 0, 0, 1]"
  by (simp add: box_of_def box_low_def box_upp_def index_at_def level_of_def breaks_at_def
      low_of_def upp_of_def toy_fields wide_fields upt_2)

lemma getBoxes_wide: "getBoxes toy wide [1 / 2] (1 / 2) = Inr [1, 0, 0, 0, 1]"
  using getBoxes_char [OF well_formed_wide, of "[1 / 2]" "1 / 2"]
  by (simp add: emitted_wide box_wide wide_fields)

lemma getBoxes_fitted_one: "getBoxes toy fitted [1 / 2] (1 / 2) = Inr [1, 0, 0, 1, 1]"
  using getBoxes_char [OF well_formed_fitted, of "[1 / 2]" "1 / 2"]
  by (simp add: emitted_fitted_one box_fitted fitted_fields)

lemma cell_of_ext: "cell_of X (s\<lparr>m_ext := e\<rparr>) p = cell_of X s p"
  by (simp add: cell_of_def)

lemma emitted_cells_ext:
  "emitted_cells X (s\<lparr>m_ext := e\<rparr>) errors threshold = emitted_cells X s errors threshold"
proof -
  have "cell_of X (s\<lparr>m_ext := e\<rparr>) = cell_of X s"
    by (rule ext) (rule cell_of_ext)
  then show ?thesis by (simp add: emitted_cells_def flagged_def)
qed

lemma level_of_ext: "level_of X (s\<lparr>m_ext := e\<rparr>) c = level_of X s c"
  by (simp add: level_of_def)

lemma index_at_ext: "index_at X (s\<lparr>m_ext := e\<rparr>) c i = index_at X s c i"
  by (simp add: index_at_def level_of_ext)

lemma breaks_at_ext: "breaks_at X (s\<lparr>m_ext := e\<rparr>) c i = breaks_at X s c i"
  by (simp add: breaks_at_def level_of_ext)

lemma well_formed_ext:
  "well_formed X s \<Longrightarrow> length e = dim_d s \<Longrightarrow> well_formed X (s\<lparr>m_ext := e\<rparr>)"
  by (simp add: well_formed_def shift_defined_def level_of_ext)

lemma refine_rank_zero_percent: "refine_rank X (s\<lparr>m_ref := 0\<rparr>) n = n"
  by (simp add: refine_rank_def sub_T_def mul_T_def cast_size_t_def)

lemma setRefineThreshold_rank:
  assumes "nth_element_contract (nth_element X)"
    and "refine_rank X s (length errors) < length errors"
  shows "setRefineThreshold X s errors = Inr (sort errors ! refine_rank X s (length errors))"
proof -
  let ?i = "refine_rank X s (length errors)"
  from assms have "nth_element X errors ?i ! ?i = sort errors ! ?i"
    by (simp add: nth_element_contract_def)
  with assms(2) show ?thesis by (simp add: setRefineThreshold_def Let_def)
qed

lemma setRefineThreshold_lowest:
  assumes "nth_element_contract (nth_element X)" and "errors \<noteq> []"
    and "refine_rank X s (length errors) = 0"
  shows "setRefineThreshold X s errors = Inr (Min (set errors))"
proof -
  have "sort errors ! 0 = Min (set errors)"
  proof -
    from assms(2) have ne: "sort errors \<noteq> []" by (cases errors) auto
    then obtain y ys where ys: "sort errors = y # ys" by (cases "sort errors") auto
    have "sorted (sort errors)" by simp
    then have "sorted (y # ys)" using ys by simp
    then have "\<forall>x \<in> set (y # ys). y \<le> x" by auto
    moreover have "set (sort errors) = set errors" by simp
    then have "set (y # ys) = set errors" using ys by simp
    ultimately have "Min (set errors) = y"
      by (intro Min_eqI) auto
    with ys show ?thesis by simp
  qed
  moreover from assms(2,3) have "refine_rank X s (length errors) < length errors" by simp
  ultimately show ?thesis
    using setRefineThreshold_rank [OF assms(1), of s errors] assms(3) by simp
qed

lemma compute_fields:
  "calls (compute X l s) = calls s @ [Compute l]"
  "m_basis (compute X l s) = m_basis s"
  "m_pointErrors (compute X l s) = m_pointErrors s"
  "m_max_error (compute X l s) = m_max_error s"
  "m_param_values (compute X l s) = m_param_values s"
  "m_lambda (compute X l s) = m_lambda s"
  "m_result (compute X l s) = solve X (m_basis s) (m_param_values s) l"
  by (simp_all add: compute_def record_call_def)

lemma computeErrors_fields:
  "calls (computeErrors X s) = calls s @ [ComputeErrors]"
  "m_basis (computeErrors X s) = m_basis s"
  "m_result (computeErrors X s) = m_result s"
  "m_param_values (computeErrors X s) = m_param_values s"
  "m_pointErrors (computeErrors X s) = fst (measure_errors X (m_result s) (m_param_values s))"
  "m_max_error (computeErrors X s) = fst (snd (measure_errors X (m_result s) (m_param_values s)))"
  "m_min_error (computeErrors X s) = snd (snd (measure_errors X (m_result s) (m_param_values s)))"
  by (simp_all add: computeErrors_def record_call_def split: prod.splits)

lemma fresh_fields:
  "m_pointErrors fresh = []" "m_lambda fresh = 0" "calls fresh = []" "m_basis fresh = 0"
  "m_param_values fresh = [[1 / 10, 1 / 10], [1 / 5, 1 / 10], [3 / 10, 1 / 10], [9 / 10, 9 / 10]]"
  by (simp_all add: fresh_def)

lemma first_fit_fresh:
  "computeErrors toy (compute toy 0 fresh) = fitted\<lparr>calls := [Compute 0, ComputeErrors]\<rparr>"
  by (simp add: computeErrors_def compute_def record_call_def toy_fields fitted_def fresh_def)















subsection \<open>Claims about getBoxes and appendBox\<close>

text \<open>
  C3. Within one call of \<^verbatim>\<open>getBoxes\<close> on inputs whose reads and shifts are defined, the
  output is one box for each cell of the finest level that holds a sample at or above the
  threshold: of the samples located in the same cell exactly the first one produces a
  box (the \<open>k\<close>-th flagged sample does so if and only if no earlier flagged sample has its
  cell), so the cells of the emitted boxes are pairwise distinct and their number is the
  number of distinct cells. Boxes are never compared with each other: two distinct cells
  whose boxes are equal both appear, as in the instance below.
\<close>

theorem getBoxes_one_box_per_cell:
  assumes "well_formed X s" and "length errors \<le> length (m_param_values s)"
  shows "getBoxes X s errors threshold
        = Inr (concat (map (box_of X s) (emitted_cells X s errors threshold)))
    \<and> emitted_cells X s errors threshold
        = map (\<lambda>k. map (cell_of X s) (flagged s errors threshold) ! k)
            (filter (\<lambda>k. map (cell_of X s) (flagged s errors threshold) ! k
                          \<notin> set (take k (map (cell_of X s) (flagged s errors threshold))))
               [0..<length (flagged s errors threshold)])
    \<and> distinct (emitted_cells X s errors threshold)
    \<and> length (emitted_cells X s errors threshold)
        = card (cell_of X s ` set (flagged s errors threshold))
    \<and> length (concat (map (box_of X s) (emitted_cells X s errors threshold)))
        = (2 * dim_d s + 1) * card (cell_of X s ` set (flagged s errors threshold))"
proof -
  let ?cs = "map (cell_of X s) (flagged s errors threshold)"
  have "first_seen ?cs = map (\<lambda>k. ?cs ! k) (filter (\<lambda>k. ?cs ! k \<notin> set (take k ?cs)) [0..<length ?cs])"
    by (rule first_seen_positions)
  then have pos: "emitted_cells X s errors threshold
      = map (\<lambda>k. ?cs ! k) (filter (\<lambda>k. ?cs ! k \<notin> set (take k ?cs))
          [0..<length (flagged s errors threshold)])"
    by (simp add: emitted_cells_def)
  have dist: "distinct (emitted_cells X s errors threshold)"
    by (simp add: emitted_cells_def distinct_first_seen)
  have len: "length (emitted_cells X s errors threshold)
      = card (cell_of X s ` set (flagged s errors threshold))"
    by (simp add: emitted_cells_def length_first_seen)
  have "length (concat (map (box_of X s) (emitted_cells X s errors threshold)))
      = (2 * dim_d s + 1) * card (cell_of X s ` set (flagged s errors threshold))"
    by (simp only: length_concat_boxes len)
  with getBoxes_char [OF assms] pos dist len show ?thesis by blast
qed

theorem getBoxes_one_box_per_cell_witness:
  "getBoxes toy fitted [1 / 2, 9 / 10, 7 / 10, 1 / 20] (1 / 2) = Inr [1, 0, 0, 1, 1, 1, 0, 0, 1, 1]
   \<and> map (cell_of toy fitted) (flagged fitted [1 / 2, 9 / 10, 7 / 10, 1 / 20] (1 / 2))
       = [[0, 0], [0, 0], [1, 0]]
   \<and> emitted_cells toy fitted [1 / 2, 9 / 10, 7 / 10, 1 / 20] (1 / 2) = [[0, 0], [1, 0]]
   \<and> box_of toy fitted [0, 0] = box_of toy fitted [1, 0]"
proof -
  have "length [1 / 2, 9 / 10, 7 / 10, 1 / 20 :: real] \<le> length (m_param_values fitted)"
    by (simp add: fitted_fields)
  from getBoxes_one_box_per_cell [OF well_formed_fitted this, of "1 / 2"]
  show ?thesis
    by (simp add: emitted_fitted box_fitted flagged_fitted cells_fitted)
qed

text \<open>
  C5. \<^verbatim>\<open>getBoxes(errors, threshold)\<close> runs \<^verbatim>\<open>appendBox\<close> on exactly the samples whose error
  is at least the threshold (the comparison is inclusive), in sample order. Its output is
  the concatenation, in the order of discovery, of one record per newly seen cell: the
  level, then the \<open>d\<close> lower bounds, then the \<open>d\<close> upper bounds, \<open>2 * d + 1\<close> entries in all.
\<close>

theorem getBoxes_layout:
  assumes "well_formed X s" and "length errors \<le> length (m_param_values s)"
  shows "getBoxes X s errors threshold
    = Inr (concat
        (map (\<lambda>c. word_of_int (level_of X s c)
                # map (box_low X s c) [0..<dim_d s] @ map (box_upp X s c) [0..<dim_d s])
           (first_seen
             (map (cell_of X s)
               (map (\<lambda>index. m_param_values s ! index)
                 (filter (\<lambda>index. threshold \<le> errors ! index) [0..<length errors]))))))"
proof -
  have "box_of X s = (\<lambda>c. word_of_int (level_of X s c)
      # map (box_low X s c) [0..<dim_d s] @ map (box_upp X s c) [0..<dim_d s])"
    by (rule ext) (simp only: box_of_def)
  with getBoxes_char [OF assms, of threshold] show ?thesis
    by (simp only: emitted_cells_def flagged_def)
qed

theorem getBoxes_layout_witness:
  "getBoxes toy fitted [1 / 2, 9 / 10, 7 / 10, 1 / 20] (1 / 20)
     = Inr [1, 0, 0, 1, 1, 1, 0, 0, 1, 1, 1, 1, 1, 2, 2]"
proof -
  have "length [1 / 2, 9 / 10, 7 / 10, 1 / 20 :: real] \<le> length (m_param_values fitted)"
    by (simp add: fitted_fields)
  from getBoxes_layout [OF well_formed_fitted this, of "1 / 20"]
  show ?thesis
    by (simp add: fitted_fields toy_fields upt_2 upt_4 cell_of_def first_seen_def note_cell_def
        level_of_def box_low_def box_upp_def index_at_def breaks_at_def low_of_def upp_of_def)
qed

text \<open>
  C6. For a cell of the finest level that \<^verbatim>\<open>appendBox\<close> has not seen yet, the call stores
  the cell and appends one box whose first entry, the level, is the level that
  \<^verbatim>\<open>tree().query3\<close> returns for the cell's half-open index range (the cell and the cell
  plus one in every direction, searched up to the finest level) plus exactly one.
\<close>

theorem appendBox_level:
  assumes "well_formed X s" and "length p = dim_d s"
    and "\<forall>c \<in> set cs. length c = dim_d s" and "cell_of X s p \<notin> set cs"
  shows "appendBox X s (boxes, concat cs) p
        = Inr (boxes @ box_of X s (cell_of X s p), concat cs @ cell_of X s p)
    \<and> box_of X s (cell_of X s p) ! 0
        = word_of_int (query3 X (m_basis s) (cell_of X s p) (map (\<lambda>x. x + 1) (cell_of X s p))
            (maxLevel X (m_basis s)) + 1)
    \<and> (0 \<le> query3 X (m_basis s) (cell_of X s p) (map (\<lambda>x. x + 1) (cell_of X s p))
            (maxLevel X (m_basis s))
        \<and> query3 X (m_basis s) (cell_of X s p) (map (\<lambda>x. x + 1) (cell_of X s p))
            (maxLevel X (m_basis s)) + 1 < 2 ^ 32
        \<longrightarrow> uint (box_of X s (cell_of X s p) ! 0)
          = query3 X (m_basis s) (cell_of X s p) (map (\<lambda>x. x + 1) (cell_of X s p))
              (maxLevel X (m_basis s)) + 1)"
proof -
  let ?c = "cell_of X s p"
  let ?q = "query3 X (m_basis s) ?c (map (\<lambda>x. x + 1) ?c) (maxLevel X (m_basis s))"
  from assms(1) have "shift_defined X s" "length (m_ext s) = dim_d s" "0 < dim_d s"
    by (simp_all add: well_formed_def)
  from appendBox_char [OF this assms(2,3), of boxes] assms(4)
  have run: "appendBox X s (boxes, concat cs) p = Inr (boxes @ box_of X s ?c, concat cs @ ?c)"
    by simp
  have lvl: "box_of X s ?c ! 0 = word_of_int (?q + 1)"
    by (simp only: nth_box_of_level level_of_def)
  have "uint (box_of X s ?c ! 0) = ?q + 1" if "0 \<le> ?q" and "?q + 1 < 2 ^ 32"
  proof -
    from that have "(?q + 1) mod 2 ^ 32 = ?q + 1" by simp
    moreover have "uint (word_of_int (?q + 1) :: u32) = (?q + 1) mod 2 ^ 32"
      by (simp only: uint_word_of_int_eq take_bit_eq_mod) simp
    ultimately show ?thesis by (simp only: lvl)
  qed
  with run lvl show ?thesis by blast
qed

theorem appendBox_level_witness:
  "appendBox toy fitted ([1, 0, 0, 1, 1], concat [[0, 0]]) [9 / 10, 9 / 10]
     = Inr ([1, 0, 0, 1, 1, 1, 1, 1, 2, 2], [0, 0, 3, 3])
   \<and> query3 toy (m_basis fitted) [3, 3] [4, 4] (maxLevel toy (m_basis fitted)) + 1 = 1"
proof -
  have c: "cell_of toy fitted [9 / 10, 9 / 10] = [3, 3]" by (simp add: cells_fitted)
  have b: "box_of toy fitted [3, 3] = [1, 1, 1, 2, 2]"
    by (simp add: box_of_def box_low_def box_upp_def index_at_def level_of_def breaks_at_def
      low_of_def upp_of_def toy_fields fitted_fields upt_2)
  have "length [9 / 10, 9 / 10 :: real] = dim_d fitted" by (simp add: fitted_fields)
  moreover have "\<forall>c \<in> set [[0, 0 :: u32]]. length c = dim_d fitted" by (simp add: fitted_fields)
  moreover have "cell_of toy fitted [9 / 10, 9 / 10] \<notin> set [[0, 0]]" by (simp add: c)
  ultimately show ?thesis
    using appendBox_level [OF well_formed_fitted, of "[9 / 10, 9 / 10]" "[[0, 0]]" "[1, 0, 0, 1, 1]"]
    by (simp add: c b toy_fields)
qed

text \<open>
  C7. The index of a cell on the resolved level \<open>L\<close> is the index on the finest level
  shifted right by \<open>maxLvl - L\<close> when \<open>L < maxLvl\<close>, and shifted left by \<open>L - maxLvl\<close>
  otherwise (for shift amounts below 32, where the C++ shift is defined). On the numbers
  the right shift is the division by the power of two, the left shift the product
  modulo \<open>2 ^ 32\<close>.
\<close>

theorem lowIndex_shift:
  assumes "\<bar>maxLvl - L\<bar> < 32"
  shows "lowIndex maxLvl L c
        = Inr (if L < maxLvl then drop_bit (nat (maxLvl - L)) c else push_bit (nat (L - maxLvl)) c)
    \<and> unat (drop_bit (nat (maxLvl - L)) c) = unat c div 2 ^ nat (maxLvl - L)
    \<and> unat (push_bit (nat (L - maxLvl)) c) = unat c * 2 ^ nat (L - maxLvl) mod 2 ^ 32"
proof -
  have "unat (drop_bit (nat (maxLvl - L)) c) = unat c div 2 ^ nat (maxLvl - L)"
    by (simp only: unat_drop_bit_eq) (simp only: drop_bit_eq_div)
  moreover have "unat (push_bit (nat (L - maxLvl)) c) = unat c * 2 ^ nat (L - maxLvl) mod 2 ^ 32"
    by (simp only: unsigned_push_bit_eq) (simp add: push_bit_eq_mult take_bit_eq_mod)
  ultimately show ?thesis using lowIndex_defined [OF assms, of c] by simp
qed

theorem lowIndex_shift_witness:
  "lowIndex 2 1 3 = Inr 1 \<and> lowIndex 2 3 3 = Inr 6 \<and> lowIndex 2 2 3 = Inr 3"
  using lowIndex_shift [of 2 1 3] lowIndex_shift [of 2 3 3] lowIndex_shift [of 2 2 3]
  by simp

text \<open>
  C4 fails as stated: with the extension \<open>4294967295\<close> the sum
  \<^verbatim>\<open>lowIndex + m_ext[dim] + 1\<close> wraps around to 0, and the upper bound of the emitted
  box is 0, not the minimum of \<open>numBreaks - 1 = 2\<close> and index + margin + 1.
\<close>

theorem box_bounds_counterexample:
  "getBoxes toy wide [1 / 2] (1 / 2) = Inr [1, 0, 0, 0, 1]
   \<and> uint ([1, 0, 0, 0, 1 :: u32] ! (1 + dim_d wide + 0)) = 0
   \<and> min (numBreaks toy (m_basis wide) 1 0 - 1)
        (uint (index_at toy wide [0, 0] 0) + uint (m_ext wide ! 0) + 1) = 2"
  by (simp add: getBoxes_wide wide_fields toy_fields index_at_def level_of_def)

text \<open>
  C4, amended. For every box emitted by \<^verbatim>\<open>getBoxes\<close> and every direction \<open>i\<close>, on a basis
  whose break count at the box's level is at least 1 and at most \<open>2 ^ 31\<close> (it is an
  \<^verbatim>\<open>int\<close>) and bounds the index of the cell (index \<open>\<le>\<close> numBreaks - 1):
  low = max(0, index - margin) and 0 \<open>\<le>\<close> low \<open>\<le>\<close> upp \<open>\<le>\<close> numBreaks - 1, whatever the
  margin; and upp = min(numBreaks - 1, index + margin + 1) whenever index + margin + 1
  does not exceed the range of an \<^verbatim>\<open>unsigned\<close>.
\<close>

theorem box_bounds:
  assumes "well_formed X s" and "length errors \<le> length (m_param_values s)"
    and "c \<in> set (emitted_cells X s errors threshold)" and "i < dim_d s"
    and "1 \<le> numBreaks X (m_basis s) (level_of X s c) i"
    and "numBreaks X (m_basis s) (level_of X s c) i \<le> 2 ^ 31"
    and "uint (index_at X s c i) \<le> numBreaks X (m_basis s) (level_of X s c) i - 1"
  shows "getBoxes X s errors threshold
        = Inr (concat (map (box_of X s) (emitted_cells X s errors threshold)))
    \<and> box_of X s c ! 0 = word_of_int (level_of X s c)
    \<and> uint (box_of X s c ! (1 + i)) = max 0 (uint (index_at X s c i) - uint (m_ext s ! i))
    \<and> 0 \<le> uint (box_of X s c ! (1 + i))
    \<and> uint (box_of X s c ! (1 + i)) \<le> uint (box_of X s c ! (1 + dim_d s + i))
    \<and> uint (box_of X s c ! (1 + dim_d s + i)) \<le> numBreaks X (m_basis s) (level_of X s c) i - 1
    \<and> (uint (index_at X s c i) + uint (m_ext s ! i) + 1 < 2 ^ 32 \<longrightarrow>
        uint (box_of X s c ! (1 + dim_d s + i))
          = min (numBreaks X (m_basis s) (level_of X s c) i - 1)
              (uint (index_at X s c i) + uint (m_ext s ! i) + 1))"
proof -
  let ?idx = "uint (index_at X s c i)" and ?e = "uint (m_ext s ! i)"
  let ?n = "numBreaks X (m_basis s) (level_of X s c) i"
  have "?n \<le> 2 ^ 32" using assms(6) by simp
  with assms(5) have nb: "uint (breaks_at X s c i) = ?n - 1"
    unfolding breaks_at_def by (rule uint_breaks)
  have low: "uint (box_of X s c ! (1 + i)) = max 0 (?idx - ?e)"
    by (simp only: nth_box_of_low [OF assms(4)] box_low_def uint_low_of)
  have uppw: "box_of X s c ! (1 + dim_d s + i)
      = upp_of (index_at X s c i) (m_ext s ! i) (breaks_at X s c i)"
    by (simp only: nth_box_of_upp [OF assms(4)] box_upp_def)
  have small: "?idx < 2 ^ 31" using assms(6,7) by simp
  have inside: "?idx \<le> uint (breaks_at X s c i)" using assms(7) by (simp only: nb)
  have chain: "max 0 (?idx - ?e) \<le> uint (box_of X s c ! (1 + dim_d s + i))"
    unfolding uppw using uint_low_le_upp [OF small inside, of "m_ext s ! i"]
    by (simp only: uint_low_of)
  have top: "uint (box_of X s c ! (1 + dim_d s + i)) \<le> ?n - 1"
    unfolding uppw using uint_upp_of_le [of "index_at X s c i" "m_ext s ! i" "breaks_at X s c i"]
    by (simp only: nb)
  have "uint (box_of X s c ! (1 + dim_d s + i)) = min (?n - 1) (?idx + ?e + 1)"
    if "?idx + ?e + 1 < 2 ^ 32"
    by (simp only: uppw uint_upp_of [OF that] nb)
  then have formula: "?idx + ?e + 1 < 2 ^ 32 \<longrightarrow>
      uint (box_of X s c ! (1 + dim_d s + i)) = min (?n - 1) (?idx + ?e + 1)"
    by blast
  have "0 \<le> max 0 (?idx - ?e)" by simp
  with chain top formula show ?thesis
    using getBoxes_char [OF assms(1,2), of threshold] nth_box_of_level [of X s c]
    by (simp only: low simp_thms)
qed

theorem box_bounds_witness:
  "getBoxes toy fitted [1 / 2, 9 / 10, 7 / 10, 1 / 20] (1 / 20)
     = Inr [1, 0, 0, 1, 1, 1, 0, 0, 1, 1, 1, 1, 1, 2, 2]
   \<and> box_of toy fitted [3, 3] = [1, 1, 1, 2, 2]
   \<and> uint (box_of toy fitted [3, 3] ! 1) = 1
   \<and> uint (box_of toy fitted [3, 3] ! 3) = 2
   \<and> numBreaks toy (m_basis fitted) (level_of toy fitted [3, 3]) 0 - 1 = 2
   \<and> getBoxes toy wide [1 / 2] (1 / 2) = Inr [1, 0, 0, 0, 1]
   \<and> uint (box_of toy wide [0, 0] ! 1) = 0
   \<and> uint (box_of toy wide [0, 0] ! 3) = 0"
proof -
  have wrapped: "getBoxes toy wide [1 / 2] (1 / 2) = Inr [1, 0, 0, 0, 1]
      \<and> uint (box_of toy wide [0, 0] ! 1) = 0 \<and> uint (box_of toy wide [0, 0] ! 3) = 0"
  proof -
    have lw: "level_of toy wide [0, 0] = 1" by (simp add: level_of_def toy_fields)
    have iw: "index_at toy wide [0, 0] 0 = 0"
      by (simp add: index_at_def level_of_def toy_fields)
    have "length [1 / 2 :: real] \<le> length (m_param_values wide)" by (simp add: wide_fields)
    moreover have "[0, 0] \<in> set (emitted_cells toy wide [1 / 2] (1 / 2))"
      by (simp add: emitted_wide)
    moreover have "(0::nat) < dim_d wide" by (simp add: wide_fields)
    moreover have "1 \<le> numBreaks toy (m_basis wide) (level_of toy wide [0, 0]) 0"
      and "numBreaks toy (m_basis wide) (level_of toy wide [0, 0]) 0 \<le> 2 ^ 31"
      and "uint (index_at toy wide [0, 0] 0)
        \<le> numBreaks toy (m_basis wide) (level_of toy wide [0, 0]) 0 - 1"
      by (simp_all add: lw iw toy_fields)
    ultimately show ?thesis
      using box_bounds [OF well_formed_wide, of "[1 / 2]" "[0, 0]" "1 / 2" 0]
      by (simp add: emitted_wide box_wide)
  qed
  have em: "emitted_cells toy fitted [1 / 2, 9 / 10, 7 / 10, 1 / 20] (1 / 20)
      = [[0, 0], [1, 0], [3, 3]]"
    by (simp add: emitted_cells_def flagged_def cells_fitted first_seen_def note_cell_def
        fitted_fields upt_4)
  have b: "box_of toy fitted [3, 3] = [1, 1, 1, 2, 2]"
    by (simp add: box_of_def box_low_def box_upp_def index_at_def level_of_def breaks_at_def
      low_of_def upp_of_def toy_fields fitted_fields upt_2)
  have lv: "level_of toy fitted [3, 3] = 1" by (simp add: level_of_def toy_fields)
  have ix: "index_at toy fitted [3, 3] 0 = 1"
    by (simp add: index_at_def level_of_def toy_fields)
  have "length [1 / 2, 9 / 10, 7 / 10, 1 / 20 :: real] \<le> length (m_param_values fitted)"
    by (simp add: fitted_fields)
  moreover have "[3, 3] \<in> set (emitted_cells toy fitted [1 / 2, 9 / 10, 7 / 10, 1 / 20] (1 / 20))"
    by (simp add: em)
  moreover have "(0::nat) < dim_d fitted" by (simp add: fitted_fields)
  moreover have "1 \<le> numBreaks toy (m_basis fitted) (level_of toy fitted [3, 3]) 0"
    and "numBreaks toy (m_basis fitted) (level_of toy fitted [3, 3]) 0 \<le> 2 ^ 31"
    and "uint (index_at toy fitted [3, 3] 0)
      \<le> numBreaks toy (m_basis fitted) (level_of toy fitted [3, 3]) 0 - 1"
    by (simp_all add: lv ix toy_fields fitted_fields)
  ultimately show ?thesis
    using box_bounds [OF well_formed_fitted, of "[1 / 2, 9 / 10, 7 / 10, 1 / 20]" "[3, 3]" "1 / 20" 0]
      wrapped
    by (simp add: em b box_fitted lv ix toy_fields fitted_fields)
qed

text \<open>
  C8 fails as stated: raising the extension of the first direction from 0 to
  \<open>4294967295\<close> makes \<^verbatim>\<open>lowIndex + m_ext[dim] + 1\<close> wrap around, and the width
  \<open>upp - low\<close> of the emitted box drops from 1 to 0 in that direction.
\<close>

theorem extension_monotone_counterexample:
  "m_ext fitted = [0, 0] \<and> wide = fitted\<lparr>m_ext := [4294967295, 0]\<rparr>
   \<and> getBoxes toy fitted [1 / 2] (1 / 2) = Inr [1, 0, 0, 1, 1]
   \<and> getBoxes toy wide [1 / 2] (1 / 2) = Inr [1, 0, 0, 0, 1]
   \<and> uint ([1, 0, 0, 0, 1 :: u32] ! 3) - uint ([1, 0, 0, 0, 1 :: u32] ! 1)
       < uint ([1, 0, 0, 1, 1 :: u32] ! 3) - uint ([1, 0, 0, 1, 1 :: u32] ! 1)"
proof -
  have "wide = fitted\<lparr>m_ext := [4294967295, 0]\<rparr>" by (simp only: wide_def)
  then show ?thesis
    by (simp add: getBoxes_wide getBoxes_fitted_one fitted_fields)
qed

text \<open>
  C8, amended. With the errors, the threshold, the parameter points and the basis fixed,
  replacing the extension by one that is at least as large in direction \<open>i\<close> never
  decreases \<open>upp[i] - low[i]\<close> of an emitted box, provided index + margin + 1 of the
  larger extension does not exceed the range of an \<^verbatim>\<open>unsigned\<close> in that direction. Both runs
  emit boxes for the same cells, on the same levels.
\<close>

theorem extension_monotone:
  assumes "well_formed X s" and "length errors \<le> length (m_param_values s)"
    and "length ext' = dim_d s"
    and "c \<in> set (emitted_cells X s errors threshold)" and "i < dim_d s"
    and "m_ext s ! i \<le> ext' ! i"
    and "uint (index_at X s c i) + uint (ext' ! i) + 1 < 2 ^ 32"
  shows "getBoxes X s errors threshold
        = Inr (concat (map (box_of X s) (emitted_cells X s errors threshold)))
    \<and> getBoxes X (s\<lparr>m_ext := ext'\<rparr>) errors threshold
        = Inr (concat (map (box_of X (s\<lparr>m_ext := ext'\<rparr>)) (emitted_cells X s errors threshold)))
    \<and> box_of X (s\<lparr>m_ext := ext'\<rparr>) c ! 0 = box_of X s c ! 0
    \<and> uint (box_of X s c ! (1 + dim_d s + i)) - uint (box_of X s c ! (1 + i))
        \<le> uint (box_of X (s\<lparr>m_ext := ext'\<rparr>) c ! (1 + dim_d s + i))
          - uint (box_of X (s\<lparr>m_ext := ext'\<rparr>) c ! (1 + i))"
proof -
  let ?s' = "s\<lparr>m_ext := ext'\<rparr>"
  let ?idx = "uint (index_at X s c i)" and ?nb = "uint (breaks_at X s c i)"
  let ?e = "uint (m_ext s ! i)" and ?e' = "uint (ext' ! i)"
  have le: "?e \<le> ?e'" using assms(6) by (simp add: word_le_def)
  with assms(7) have nowrap: "?idx + ?e + 1 < 2 ^ 32" by simp
  have i': "i < dim_d ?s'" using assms(5) by simp
  have low: "uint (box_of X s c ! (1 + i)) = max 0 (?idx - ?e)"
    by (simp only: nth_box_of_low [OF assms(5)] box_low_def uint_low_of)
  have upp: "uint (box_of X s c ! (1 + dim_d s + i)) = min ?nb (?idx + ?e + 1)"
    by (simp only: nth_box_of_upp [OF assms(5)] box_upp_def uint_upp_of [OF nowrap])
  have low': "uint (box_of X ?s' c ! (1 + i)) = max 0 (?idx - ?e')"
    using nth_box_of_low [OF i', of X c]
    by (simp add: box_low_def uint_low_of index_at_ext)
  have upp': "uint (box_of X ?s' c ! (1 + dim_d s + i)) = min ?nb (?idx + ?e' + 1)"
    using nth_box_of_upp [OF i', of X c] uint_upp_of [OF assms(7)]
    by (simp add: box_upp_def index_at_ext breaks_at_ext)
  have mono: "min ?nb (?idx + ?e + 1) - max 0 (?idx - ?e)
      \<le> min ?nb (?idx + ?e' + 1) - max 0 (?idx - ?e')"
    using le by linarith
  have run: "getBoxes X s errors threshold
      = Inr (concat (map (box_of X s) (emitted_cells X s errors threshold)))"
    by (rule getBoxes_char [OF assms(1,2)])
  have "well_formed X ?s'" by (rule well_formed_ext [OF assms(1,3)])
  moreover have "length errors \<le> length (m_param_values ?s')" using assms(2) by simp
  ultimately have "getBoxes X ?s' errors threshold
      = Inr (concat (map (box_of X ?s') (emitted_cells X ?s' errors threshold)))"
    by (rule getBoxes_char)
  then have run': "getBoxes X ?s' errors threshold
      = Inr (concat (map (box_of X ?s') (emitted_cells X s errors threshold)))"
    by (simp only: emitted_cells_ext)
  have lvl: "box_of X ?s' c ! 0 = box_of X s c ! 0"
    by (simp only: nth_box_of_level level_of_ext)
  from run run' lvl mono show ?thesis
    by (simp only: low upp low' upp' simp_thms)
qed

theorem extension_monotone_witness:
  "getBoxes toy fitted [1 / 2, 9 / 10, 7 / 10, 1 / 20] (1 / 20)
     = Inr [1, 0, 0, 1, 1, 1, 0, 0, 1, 1, 1, 1, 1, 2, 2]
   \<and> getBoxes toy (fitted\<lparr>m_ext := [1, 0]\<rparr>) [1 / 2, 9 / 10, 7 / 10, 1 / 20] (1 / 20)
     = Inr [1, 0, 0, 2, 1, 1, 0, 0, 2, 1, 1, 0, 1, 2, 2]"
proof -
  have em: "emitted_cells toy fitted [1 / 2, 9 / 10, 7 / 10, 1 / 20] (1 / 20)
      = [[0, 0], [1, 0], [3, 3]]"
    by (simp add: emitted_cells_def flagged_def cells_fitted first_seen_def note_cell_def
        fitted_fields upt_4)
  have b: "box_of toy fitted [3, 3] = [1, 1, 1, 2, 2]"
    by (simp add: box_of_def box_low_def box_upp_def index_at_def level_of_def breaks_at_def
      low_of_def upp_of_def toy_fields fitted_fields upt_2)
  have b': "box_of toy (fitted\<lparr>m_ext := [1, 0]\<rparr>) [0, 0] = [1, 0, 0, 2, 1]"
    "box_of toy (fitted\<lparr>m_ext := [1, 0]\<rparr>) [1, 0] = [1, 0, 0, 2, 1]"
    "box_of toy (fitted\<lparr>m_ext := [1, 0]\<rparr>) [3, 3] = [1, 0, 1, 2, 2]"
    by (simp_all add: box_of_def box_low_def box_upp_def index_at_def level_of_def breaks_at_def
      low_of_def upp_of_def toy_fields fitted_fields upt_2)
  have ix: "index_at toy fitted [3, 3] 0 = 1"
    by (simp add: index_at_def level_of_def toy_fields)
  have "length [1 / 2, 9 / 10, 7 / 10, 1 / 20 :: real] \<le> length (m_param_values fitted)"
    by (simp add: fitted_fields)
  moreover have "length [1, 0 :: u32] = dim_d fitted" by (simp add: fitted_fields)
  moreover have "[3, 3] \<in> set (emitted_cells toy fitted [1 / 2, 9 / 10, 7 / 10, 1 / 20] (1 / 20))"
    by (simp add: em)
  moreover have "(0::nat) < dim_d fitted" by (simp add: fitted_fields)
  moreover have "m_ext fitted ! 0 \<le> [1, 0 :: u32] ! 0" by (simp add: fitted_fields)
  moreover have "uint (index_at toy fitted [3, 3] 0) + uint ([1, 0 :: u32] ! 0) + 1 < 2 ^ 32"
    by (simp add: ix)
  ultimately show ?thesis
    using extension_monotone [OF well_formed_fitted,
        of "[1 / 2, 9 / 10, 7 / 10, 1 / 20]" "[1, 0]" "[3, 3]" "1 / 20" 0]
    by (simp add: em b b' box_fitted)
qed

subsection \<open>Claims about the threshold and the iteration\<close>

text \<open>
  C1. The function returns the entry of the sorted errors at the rank it computes in the
  arithmetic of \<^verbatim>\<open>T\<close>, whenever that rank is below \<open>N\<close> (lemma
  \<open>setRefineThreshold_rank\<close>). For \<open>p = 0\<close>, which the constructor's assertion admits,
  \<open>1.0 - 0\<close> and \<open>N * 1.0\<close> are exact and the rank is \<open>N\<close>: \<^verbatim>\<open>pos\<close> is
  \<^verbatim>\<open>errorsCopy.end()\<close> and \<^verbatim>\<open>*pos\<close> reads past the last element instead of returning
  the largest error.
\<close>

theorem setRefineThreshold_zero_percent:
  "setRefineThreshold X (s\<lparr>m_ref := 0\<rparr>) errors = Inl OutOfRange"
  by (simp add: setRefineThreshold_def refine_rank_zero_percent)

text \<open>
  C10. On an object whose error field is empty, \<^verbatim>\<open>nextIteration\<close> returns true for every
  tolerance and every threshold argument, after exactly one \<^verbatim>\<open>compute\<close> and one
  \<^verbatim>\<open>computeErrors\<close>: no threshold is selected, no boxes are built and the basis is not
  refined.
\<close>

theorem nextIteration_first_fit:
  assumes "m_pointErrors s = []"
  shows "nextIteration X tolerance err_threshold s
        = Inr (True, computeErrors X (compute X (m_lambda s) s))
    \<and> calls (computeErrors X (compute X (m_lambda s) s))
        = calls s @ [Compute (m_lambda s), ComputeErrors]
    \<and> m_basis (computeErrors X (compute X (m_lambda s) s)) = m_basis s"
  using assms by (simp add: nextIteration_def computeErrors_fields compute_fields)

theorem nextIteration_first_fit_witness:
  "nextIteration toy (Finite 0) (- 1) fresh
     = Inr (True, fitted\<lparr>calls := [Compute 0, ComputeErrors]\<rparr>)
   \<and> nextIteration toy PlusInfinity 5 fresh
     = Inr (True, fitted\<lparr>calls := [Compute 0, ComputeErrors]\<rparr>)"
proof -
  have "m_pointErrors fresh = []" by (simp add: fresh_def)
  from nextIteration_first_fit [OF this, of toy "Finite 0" "- 1"]
    nextIteration_first_fit [OF this, of toy PlusInfinity 5]
  show ?thesis by (simp add: fresh_fields first_fit_fresh)
qed






end
